theory Spec2Isabelle
  imports Main "HOL-Library.Word"
begin

unbundle bit_operations_syntax

section \<open>The delta header reader of delta.h\<close>

text \<open>
  The only function of delta.h that has a body is the inline header reader

  \<^verbatim>\<open>
  static inline unsigned long get_delta_hdr_size(const unsigned char **datap,
                                                 const unsigned char *top)
  {
      const unsigned char *data = *datap;
      unsigned char cmd;
      unsigned long size = 0;
      int i = 0;
      do {
          cmd = *data++;
          size |= (cmd & ~0x80) << i;
          i += 7;
      } while (cmd & 0x80 && data < top);
      *datap = data;
      return size;
  }
  \<close>

  The buffer is a list of bytes and a pointer into it is an index, so \<open>top\<close> is the
  index one past the last byte the caller allows to be read; it need not be the length
  of the list. \<open>unsigned char\<close> is an 8-bit word, \<open>unsigned long\<close> a 64-bit word and
  \<open>int\<close> has 32 bits (the LP64 data model).
\<close>

type_synonym uchar = "8 word"
type_synonym ulong = "64 word"

text \<open>
  A read \<open>*data\<close> with \<open>data\<close> outside the buffer has no result; that is the one
  fault of the model, and the only way for a call not to return.

  The left shift needs care. Both of its operands have type \<open>int\<close> after the integer
  promotions (\<open>cmd\<close> is promoted and \<open>~0x80\<close> is an \<open>int\<close> constant), so it is a
  shift of a signed 32-bit value, and C defines it only for a count below 32 and a
  shifted value of at most \<open>INT_MAX\<close>. The loop does not stop there: its only exits
  are the two conditions of the \<open>while\<close>. So the model goes on as the compiled code
  does. A shifted value that does not fit wraps to 32 bits in two's complement, as on
  every target with 32-bit \<open>int\<close>. For a count of 32 or more the targets differ, and
  the model gives the shift no value: from then on the size is \<open>None\<close>, a size that
  nothing is known about, while the loop, its reads and the cursor go on as before.
\<close>

datatype fault = MemorySafety

definition INT_MAX :: int where
  "INT_MAX = 2 ^ 31 - 1"

definition shl_int :: "int \<Rightarrow> nat \<Rightarrow> int option" where
  "shl_int e1 e2 =
     (if 32 \<le> e2 then None
      else if 0 \<le> e1 \<and> e1 * 2 ^ e2 \<le> INT_MAX then Some (e1 * 2 ^ e2)
      else Some (sint (word_of_int (e1 * 2 ^ e2) :: 32 word)))"

text \<open>
  The loop. The first component of the result lists the indices read, in order; the
  second is the fault, or the returned \<open>size\<close> with the value stored to \<open>*datap\<close>.
  The body runs before the loop condition is looked at, as in a \<open>do ... while\<close>.
  \<open>cmd & ~0x80\<close> is computed on the promoted value, and the \<open>int\<close> result of the
  shift is converted to \<open>unsigned long\<close> for the \<open>|=\<close>, which extends its sign
  (\<open>accumulate\<close> is the statement \<open>size |= (cmd & ~0x80) << i\<close>). The
  counter \<open>i\<close> only feeds the shift and is kept as a natural number: once it is past
  31 the shift has no value whatever \<open>i\<close> is, so that the wrap-around of the \<open>int\<close>
  counter, after hundreds of millions of passes, changes nothing the model keeps.
  (\<open>top\<close> and \<open>size\<close> are constants of HOL, so the variables are \<open>topp\<close> and
  \<open>sz\<close>.)
\<close>

definition accumulate :: "ulong option \<Rightarrow> uchar \<Rightarrow> nat \<Rightarrow> ulong option" where
  "accumulate sz cmd i =
     (case shl_int (uint cmd AND NOT 0x80) i of
        None \<Rightarrow> None
      | Some v \<Rightarrow> map_option (\<lambda>s. s OR word_of_int v) sz)"

function hdr_loop ::
  "uchar list \<Rightarrow> nat \<Rightarrow> nat \<Rightarrow> ulong option \<Rightarrow> nat
     \<Rightarrow> nat list \<times> (fault + ulong option \<times> nat)"
where
  "hdr_loop dbuf topp data sz i =
     (if length dbuf \<le> data then ([data], Inl MemorySafety)
      else
        let cmd = dbuf ! data;
            data' = data + 1;
            sz' = accumulate sz cmd i;
            i' = i + 7
        in if cmd AND 0x80 \<noteq> 0 \<and> data' < topp
           then (case hdr_loop dbuf topp data' sz' i' of
                   (reads, r) \<Rightarrow> (data # reads, r))
           else ([data], Inr (sz', data')))"
  by pat_completeness auto
termination
  by (relation "measure (\<lambda>(dbuf, topp, data, sz, i). topp - data)") auto

declare hdr_loop.simps [simp del]

definition get_delta_hdr_size ::
  "uchar list \<Rightarrow> nat \<Rightarrow> nat \<Rightarrow> nat list \<times> (fault + ulong option \<times> nat)"
where
  "get_delta_hdr_size dbuf datap topp = hdr_loop dbuf topp datap (Some 0) 0"

section \<open>The header varint of the specification\<close>

text \<open>
  Modelled from the spec: the encoder of the header varint (section 4.3). It belongs to
  the delta builder, whose body is not in delta.h. An unsigned integer is cut into 7-bit
  groups, least significant first, and every byte but the last carries the continuation
  bit \<open>0x80\<close>.
\<close>

fun varint_encode :: "nat \<Rightarrow> uchar list" where
  "varint_encode n =
     (if n < 128 then [of_nat n]
      else (of_nat (n mod 128) OR 0x80) # varint_encode (n div 128))"

declare varint_encode.simps [simp del]

text \<open>
  \<open>varint_value\<close> is the accumulation \<open>value |= (byte & 0x7F) << (7 * i)\<close> of
  section 4.3 over a list of bytes, in unbounded arithmetic. \<open>well_formed_varint\<close> says
  that a list of bytes is one varint: it is not empty, and exactly its last byte has no
  continuation bit.
\<close>

fun varint_value :: "uchar list \<Rightarrow> nat" where
  "varint_value [] = 0"
| "varint_value (b # bs) = unat (b AND 0x7F) + 128 * varint_value bs"

definition continued :: "uchar \<Rightarrow> bool" where
  "continued b = (b AND 0x80 \<noteq> 0)"

definition well_formed_varint :: "uchar list \<Rightarrow> bool" where
  "well_formed_varint bs =
     (bs \<noteq> [] \<and> list_all continued (butlast bs) \<and> \<not> continued (last bs))"

text \<open>\<open>holds_at dbuf p bs\<close>: the bytes \<open>bs\<close> stand in the buffer from index \<open>p\<close> on.\<close>

definition holds_at :: "uchar list \<Rightarrow> nat \<Rightarrow> uchar list \<Rightarrow> bool" where
  "holds_at dbuf p bs = (take (length bs) (drop p dbuf) = bs)"

section \<open>The match index and the delta builder\<close>

text \<open>
  delta.h declares \<open>create_delta_index\<close> and \<open>create_delta\<close> and documents them, but
  their bodies are in another file of the repository. What follows models them from the
  specification (sections 3, 4.1, 4.2 and 6) and from the comments of delta.h.

  \<open>struct source_info\<close> is declared in delta.h: a buffer, its size and the offset at
  which the buffer starts in the aggregate source. The buffer is a list of bytes, and
  its \<open>size\<close> is the length of the list.
\<close>

record source_info =
  buf :: "uchar list"
  agg_offset :: nat

text \<open>
  Modelled from the spec: the tuning constants the specification leaves open (section
  9): the block stride \<open>B\<close>, the content hash of a block, and the match length below
  which a match is not worth a copy operation. Every definition below takes them as a
  parameter.
\<close>

record tuning =
  block_size :: nat
  block_hash :: "uchar list \<Rightarrow> nat"
  min_match :: nat

text \<open>
  Modelled from the spec: the MatchIndex of section 3, which is the opaque
  \<open>struct delta_index\<close> of delta.h. The hash table is the list of its
  \<open>(hash, offset)\<close> entries in the order of registration, so that the entries with one
  hash are the chain of that hash. The index also holds the aggregate source length and
  the source buffers it borrows, oldest first.
\<close>

record delta_index =
  table :: "(nat \<times> nat) list"
  agg_size :: nat
  sources :: "source_info list"

datatype build_error = AllocationError | SizeExceeded

text \<open>
  Modelled from the spec: the index builder of section 4.1, \<open>create_delta_index\<close> of
  delta.h. The source is cut into consecutive blocks of stride \<open>B\<close>, a short last block
  included; each block is entered with its hash and with its offset, which is relative
  to the source's \<open>agg_offset\<close>. The entries of a prior index come first, unchanged.
  \<open>mem\<close> says whether the table memory can be obtained; that is the only reason to
  fail.
\<close>

definition block_offsets :: "nat \<Rightarrow> nat \<Rightarrow> nat list" where
  "block_offsets B n = map (\<lambda>k. k * B) [0 ..< (n + B - 1) div B]"

definition index_entries :: "tuning \<Rightarrow> source_info \<Rightarrow> (nat \<times> nat) list" where
  "index_entries tun src =
     map (\<lambda>p. (block_hash tun (take (block_size tun) (drop p (buf src))), agg_offset src + p))
       (block_offsets (block_size tun) (length (buf src)))"

definition create_delta_index ::
  "tuning \<Rightarrow> bool \<Rightarrow> source_info \<Rightarrow> delta_index option \<Rightarrow> build_error + delta_index"
where
  "create_delta_index tun mem src old =
     (if \<not> mem then Inl AllocationError
      else Inr \<lparr>table = (case old of None \<Rightarrow> [] | Some ix \<Rightarrow> table ix) @ index_entries tun src,
                agg_size = (case old of None \<Rightarrow> 0 | Some ix \<Rightarrow> agg_size ix) + length (buf src),
                sources = (case old of None \<Rightarrow> [] | Some ix \<Rightarrow> sources ix) @ [src]\<rparr>)"

text \<open>
  Modelled from the spec: looking a hash up gives the offsets registered with it,
  earliest first. \<open>agg_byte\<close> reads the byte of the aggregate source at an offset, from
  the first borrowed buffer that covers the offset.
\<close>

definition candidates :: "delta_index \<Rightarrow> nat \<Rightarrow> nat list" where
  "candidates ix h = map snd (filter (\<lambda>e. fst e = h) (table ix))"

fun agg_byte :: "source_info list \<Rightarrow> nat \<Rightarrow> uchar option" where
  "agg_byte [] off = None"
| "agg_byte (s # ss) off =
     (if agg_offset s \<le> off \<and> off < agg_offset s + length (buf s)
      then Some (buf s ! (off - agg_offset s))
      else agg_byte ss off)"

subsection \<open>The binary delta format\<close>

text \<open>
  Modelled from the spec: the operations of section 3 and their encoding of section 6.
  An insert is a byte \<open>y\<close> from 1 to 127 followed by \<open>y\<close> literal bytes. A copy is a
  byte with the high bit set whose seven low bits say which of the four little-endian
  offset bytes (bits 0 to 3) and of the three little-endian length bytes (bits 4 to 6)
  follow; an absent byte is zero, and a length field of zero stands for \<open>0x10000\<close>.
\<close>

datatype delta_op = Copy nat nat | Insert "uchar list"

fun op_length :: "delta_op \<Rightarrow> nat" where
  "op_length (Copy off len) = len"
| "op_length (Insert bs) = length bs"

fun le_digits :: "nat \<Rightarrow> nat \<Rightarrow> nat list" where
  "le_digits 0 v = []"
| "le_digits (Suc k) v = v mod 256 # le_digits k (v div 256)"

fun le_value :: "nat list \<Rightarrow> nat" where
  "le_value [] = 0"
| "le_value (d # ds) = d + 256 * le_value ds"

fun bits_value :: "bool list \<Rightarrow> nat" where
  "bits_value [] = 0"
| "bits_value (p # ps) = (if p then 1 else 0) + 2 * bits_value ps"

fun bits_of :: "nat \<Rightarrow> nat \<Rightarrow> bool list" where
  "bits_of 0 n = []"
| "bits_of (Suc k) n = odd n # bits_of k (n div 2)"

definition encode_copy :: "nat \<Rightarrow> nat \<Rightarrow> uchar list" where
  "encode_copy off len =
     (let ds = le_digits 4 off @ le_digits 3 (if len = 0x10000 then 0 else len)
      in of_nat (128 + bits_value (map (\<lambda>d. d \<noteq> 0) ds)) # map of_nat (filter (\<lambda>d. d \<noteq> 0) ds))"

fun encode_op :: "delta_op \<Rightarrow> uchar list" where
  "encode_op (Copy off len) = encode_copy off len"
| "encode_op (Insert bs) = of_nat (length bs) # bs"

text \<open>
  Modelled from the spec: the two ways the builder emits operations. A literal run is
  flushed as inserts of at most 127 bytes, and a matched span as copies of at most
  \<open>0x10000\<close> bytes.
\<close>

fun inserts :: "uchar list \<Rightarrow> delta_op list" where
  "inserts bs = (if bs = [] then [] else Insert (take 127 bs) # inserts (drop 127 bs))"

fun copies :: "nat \<Rightarrow> nat \<Rightarrow> delta_op list" where
  "copies off len =
     (if len = 0 then []
      else Copy off (min len 0x10000) # copies (off + min len 0x10000) (len - min len 0x10000))"

declare inserts.simps [simp del] copies.simps [simp del]

subsection \<open>Reading a delta stream back\<close>

text \<open>
  Modelled from the spec: the apply routine is outside the repository's core and only
  reads the format. It reads the header with \<open>get_delta_hdr_size\<close> of delta.h, which
  the comment there tells to call twice on the delta buffer, first for the expected
  source size and again for the target size; \<open>top\<close> is the end of the stream.
  \<open>read_size\<close> is one such call: the size as a number and the cursor behind it, and no
  result when the call reads outside the stream or leaves the size unknown. The apply
  routine then parses the operations (\<open>spread\<close> puts the bytes that follow a copy byte
  at the places its bits name), and concatenates their effects in order. It refuses a
  stream whose expected source size is not the length of the source it is given, a copy
  that leaves the source, and a result whose length is not the target size of the header.
\<close>

definition read_size :: "uchar list \<Rightarrow> nat \<Rightarrow> (nat \<times> nat) option" where
  "read_size stream c =
     (case snd (get_delta_hdr_size stream c (length stream)) of
        Inl f \<Rightarrow> None
      | Inr (sz, c') \<Rightarrow> (case sz of None \<Rightarrow> None | Some s \<Rightarrow> Some (unat s, c')))"

fun spread :: "bool list \<Rightarrow> uchar list \<Rightarrow> nat list" where
  "spread [] bs = []"
| "spread (False # ps) bs = 0 # spread ps bs"
| "spread (True # ps) [] = 0 # spread ps []"
| "spread (True # ps) (b # bs) = unat b # spread ps bs"

function parse_ops :: "uchar list \<Rightarrow> delta_op list option" where
  "parse_ops [] = Some []"
| "parse_ops (c # bs) =
     (if 128 \<le> unat c then
        (let ps = bits_of 7 (unat c);
             n = length (filter (\<lambda>p. p) ps);
             ds = spread ps (take n bs)
         in if length bs < n then None
            else map_option
                   (Cons (Copy (le_value (take 4 ds))
                      (if le_value (drop 4 ds) = 0 then 0x10000 else le_value (drop 4 ds))))
                   (parse_ops (drop n bs)))
      else if c = 0 \<or> length bs < unat c then None
      else map_option (Cons (Insert (take (unat c) bs))) (parse_ops (drop (unat c) bs)))"
  by pat_completeness auto
termination
  by (relation "measure length") auto

declare parse_ops.simps [simp del]

fun run_ops :: "uchar list \<Rightarrow> delta_op list \<Rightarrow> uchar list option" where
  "run_ops S [] = Some []"
| "run_ops S (Copy off len # ops) =
     (if off + len \<le> length S
      then map_option ((@) (take len (drop off S))) (run_ops S ops)
      else None)"
| "run_ops S (Insert bs # ops) = map_option ((@) bs) (run_ops S ops)"

definition decode_stream :: "uchar list \<Rightarrow> (nat \<times> nat \<times> delta_op list) option" where
  "decode_stream stream =
     (case read_size stream 0 of
        None \<Rightarrow> None
      | Some (src_len, c1) \<Rightarrow>
          (case read_size stream c1 of
             None \<Rightarrow> None
           | Some (tgt_len, c2) \<Rightarrow>
               map_option (\<lambda>ops. (src_len, tgt_len, ops)) (parse_ops (drop c2 stream))))"

definition apply_delta :: "uchar list \<Rightarrow> uchar list \<Rightarrow> uchar list option" where
  "apply_delta stream S =
     (case decode_stream stream of
        None \<Rightarrow> None
      | Some (src_len, tgt_len, ops) \<Rightarrow>
          if src_len \<noteq> length S then None
          else (case run_ops S ops of
                  None \<Rightarrow> None
                | Some out \<Rightarrow> if length out = tgt_len then Some out else None))"

subsection \<open>The greedy pass\<close>

text \<open>
  Modelled from the spec: step 3 of section 4.2. A candidate offset is verified by
  comparing bytes forward from the cursor, as far as source and target agree; it is a
  match when at least \<open>B\<close> bytes agree. The match is extended backward into the pending
  literal run. The format has four offset bytes, so a candidate whose matched span does
  not end within \<open>2 ^ 32\<close> cannot be written as copies and is not used. Among the
  candidates the longest extended match wins, the earliest registered on a tie.
\<close>

fun match_fwd :: "(nat \<Rightarrow> uchar option) \<Rightarrow> nat \<Rightarrow> uchar list \<Rightarrow> nat" where
  "match_fwd src off [] = 0"
| "match_fwd src off (x # xs) =
     (if src off = Some x then Suc (match_fwd src (Suc off) xs) else 0)"

fun match_back :: "(nat \<Rightarrow> uchar option) \<Rightarrow> nat \<Rightarrow> uchar list \<Rightarrow> nat" where
  "match_back src off [] = 0"
| "match_back src off (x # xs) =
     (if 0 < off \<and> src (off - 1) = Some x then Suc (match_back src (off - 1) xs) else 0)"

definition try_candidate ::
  "tuning \<Rightarrow> (nat \<Rightarrow> uchar option) \<Rightarrow> uchar list \<Rightarrow> uchar list \<Rightarrow> nat \<Rightarrow> (nat \<times> nat \<times> nat) option"
where
  "try_candidate tun src tail pending off =
     (let fwd = match_fwd src off tail;
          back = match_back src off (rev pending)
      in if block_size tun \<le> fwd \<and> off + fwd \<le> 2 ^ 32 then Some (off, back, fwd) else None)"

fun best_match :: "(nat \<times> nat \<times> nat) list \<Rightarrow> (nat \<times> nat \<times> nat) option" where
  "best_match [] = None"
| "best_match ((off, back, fwd) # ms) =
     (case best_match ms of
        None \<Rightarrow> Some (off, back, fwd)
      | Some (off', back', fwd') \<Rightarrow>
          if back + fwd < back' + fwd' then Some (off', back', fwd') else Some (off, back, fwd))"

text \<open>
  Modelled from the spec: the lookup at one cursor position. With fewer than \<open>B\<close> bytes
  left no lookup is made. A best match that is empty or shorter than the threshold is no
  match (step 4).
\<close>

definition find_match ::
  "tuning \<Rightarrow> delta_index \<Rightarrow> uchar list \<Rightarrow> nat \<Rightarrow> uchar list \<Rightarrow> (nat \<times> nat \<times> nat) option"
where
  "find_match tun ix target t pending =
     (if length target - t < block_size tun then None
      else
        let tail = drop t target;
            h = block_hash tun (take (block_size tun) tail)
        in case best_match
               (List.map_filter (try_candidate tun (agg_byte (sources ix)) tail pending)
                  (candidates ix h)) of
             None \<Rightarrow> None
           | Some (off, back, fwd) \<Rightarrow>
               if fwd = 0 \<or> back + fwd < min_match tun then None else Some (off, back, fwd))"

text \<open>
  Modelled from the spec: appending operations to the stream under the size cutoff
  (step 7). \<open>max_size = 0\<close> means that no cutoff is set, as delta.h says of
  \<open>max_delta_size\<close>. After each operation the stream is compared with the cutoff.
\<close>

definition emit :: "nat \<Rightarrow> uchar list \<Rightarrow> delta_op \<Rightarrow> build_error + uchar list" where
  "emit max_size out op =
     (let out' = out @ encode_op op
      in if max_size \<noteq> 0 \<and> max_size < length out' then Inl SizeExceeded else Inr out')"

fun emit_all :: "nat \<Rightarrow> uchar list \<Rightarrow> delta_op list \<Rightarrow> build_error + uchar list" where
  "emit_all max_size out [] = Inr out"
| "emit_all max_size out (op # ops) =
     (case emit max_size out op of
        Inl e \<Rightarrow> Inl e
      | Inr out' \<Rightarrow> emit_all max_size out' ops)"

text \<open>
  Modelled from the spec: steps 2 to 6 of section 4.2. \<open>t\<close> is the cursor into the
  target, \<open>pending\<close> the pending literal run and \<open>out\<close> the stream so far. Without a
  match the byte at the cursor joins the pending run. With a match, the part of the
  pending run that the backward extension did not take is flushed, the extended span is
  emitted as copies, and the cursor moves past the match. At the end of the target the
  pending run is flushed.
\<close>

function delta_loop ::
  "tuning \<Rightarrow> delta_index \<Rightarrow> uchar list \<Rightarrow> nat \<Rightarrow> nat \<Rightarrow> uchar list \<Rightarrow> uchar list
     \<Rightarrow> build_error + uchar list"
where
  "delta_loop tun ix target max_size t pending out =
     (if length target \<le> t then emit_all max_size out (inserts pending)
      else
        case find_match tun ix target t pending of
          None \<Rightarrow> delta_loop tun ix target max_size (t + 1) (pending @ [target ! t]) out
        | Some (off, back, fwd) \<Rightarrow>
            (case emit_all max_size out
                    (inserts (take (length pending - back) pending) @
                     copies (off - back) (back + fwd)) of
               Inl e \<Rightarrow> Inl e
             | Inr out' \<Rightarrow> delta_loop tun ix target max_size (t + fwd) [] out'))"
  by pat_completeness auto
termination
  by (relation "measure (\<lambda>(tun, ix, target, max_size, t, pending, out). length target - t)")
     (auto simp add: find_match_def Let_def split: if_splits option.splits)

declare delta_loop.simps [simp del]

text \<open>
  Modelled from the spec: the delta builder of section 4.2, \<open>create_delta\<close> of delta.h.
  The stream starts with the header: the aggregate source length and the target length
  as varints. delta.h promises \<open>NULL\<close> whenever the resulting delta is larger than a
  non-zero \<open>max_delta_size\<close>, so the finished stream is compared with the cutoff once
  more before it is returned. \<open>mem\<close> says whether the output buffer can be obtained.
\<close>

definition create_delta ::
  "tuning \<Rightarrow> bool \<Rightarrow> delta_index \<Rightarrow> uchar list \<Rightarrow> nat \<Rightarrow> build_error + uchar list"
where
  "create_delta tun mem ix target max_size =
     (if \<not> mem then Inl AllocationError
      else
        case delta_loop tun ix target max_size 0 []
               (varint_encode (agg_size ix) @ varint_encode (length target)) of
          Inl e \<Rightarrow> Inl e
        | Inr out \<Rightarrow>
            if max_size \<noteq> 0 \<and> max_size < length out then Inl SizeExceeded else Inr out)"

text \<open>
  The operations the greedy pass emits from a cursor position on, in order. The pass
  above appends their encodings one by one; this function is what the statements about
  the stream's operations refer to.
\<close>

function delta_ops ::
  "tuning \<Rightarrow> delta_index \<Rightarrow> uchar list \<Rightarrow> nat \<Rightarrow> uchar list \<Rightarrow> delta_op list"
where
  "delta_ops tun ix target t pending =
     (if length target \<le> t then inserts pending
      else
        case find_match tun ix target t pending of
          None \<Rightarrow> delta_ops tun ix target (t + 1) (pending @ [target ! t])
        | Some (off, back, fwd) \<Rightarrow>
            inserts (take (length pending - back) pending) @
            copies (off - back) (back + fwd) @
            delta_ops tun ix target (t + fwd) [])"
  by pat_completeness auto
termination
  by (relation "measure (\<lambda>(tun, ix, target, t, pending). length target - t)")
     (auto simp add: find_match_def Let_def split: if_splits option.splits)

declare delta_ops.simps [simp del]

subsection \<open>Notions for the statements\<close>

text \<open>
  An operation is well formed when the format of section 6 can hold it: a copy with an
  offset of four bytes and a length from 1 to \<open>0x10000\<close>, an insert of 1 to 127 bytes.
\<close>

fun valid_op :: "delta_op \<Rightarrow> bool" where
  "valid_op (Copy off len) = (off < 2 ^ 32 \<and> 1 \<le> len \<and> len \<le> 0x10000)"
| "valid_op (Insert bs) = (1 \<le> length bs \<and> length bs \<le> 127)"

text \<open>
  \<open>reads_from src S\<close>: every byte that \<open>src\<close> has at an offset is the byte of the
  buffer \<open>S\<close> at that offset. \<open>delta_stream\<close> is the whole stream of a target: the
  header and the encoded operations of the greedy pass. \<open>block_matches\<close> are the offsets
  under which the blocks of one source with a given hash are registered: the place of the
  block in the source plus the source's \<open>agg_offset\<close>.
\<close>

definition reads_from :: "(nat \<Rightarrow> uchar option) \<Rightarrow> uchar list \<Rightarrow> bool" where
  "reads_from src S = (\<forall>off b. src off = Some b \<longrightarrow> off < length S \<and> S ! off = b)"

definition delta_stream :: "tuning \<Rightarrow> delta_index \<Rightarrow> uchar list \<Rightarrow> uchar list" where
  "delta_stream tun ix target =
     varint_encode (agg_size ix) @ varint_encode (length target) @
     concat (map encode_op (delta_ops tun ix target 0 []))"

definition block_matches :: "tuning \<Rightarrow> source_info \<Rightarrow> nat \<Rightarrow> nat list" where
  "block_matches tun src h =
     map (\<lambda>p. agg_offset src + p)
       (filter (\<lambda>p. block_hash tun (take (block_size tun) (drop p (buf src))) = h)
          (block_offsets (block_size tun) (length (buf src))))"

text \<open>
  The concrete scenario of section 8 of the specification: the source \<open>abcdefghij\<close> and
  the target \<open>xxabcdefghijyy\<close>, here with blocks of four bytes, the sum of a block's
  bytes as its hash, and matches of four bytes or more. \<open>scenario_index\<close> is the index
  of the source: its blocks \<open>abcd\<close>, \<open>efgh\<close> and \<open>ij\<close> at the offsets 0, 4 and 8.
\<close>

definition scenario_tuning :: tuning where
  "scenario_tuning =
     \<lparr>block_size = 4, block_hash = (\<lambda>bs. sum_list (map unat bs)), min_match = 4\<rparr>"

definition scenario_source :: "uchar list" where
  "scenario_source = [97, 98, 99, 100, 101, 102, 103, 104, 105, 106]"

definition scenario_target :: "uchar list" where
  "scenario_target = [120, 120, 97, 98, 99, 100, 101, 102, 103, 104, 105, 106, 121, 121]"

definition scenario_index :: delta_index where
  "scenario_index =
     \<lparr>table = [(394, 0), (410, 4), (211, 8)], agg_size = 10,
      sources = [\<lparr>buf = scenario_source, agg_offset = 0\<rparr>]\<rparr>"




section \<open>Properties of the header reader\<close>

subsection \<open>One pass through the loop body\<close>

lemma hdr_loop_outside:
  "length dbuf \<le> data \<Longrightarrow> hdr_loop dbuf topp data sz i = ([data], Inl MemorySafety)"
  by (subst hdr_loop.simps) simp

lemma hdr_loop_exit:
  "data < length dbuf \<Longrightarrow> \<not> (dbuf ! data AND 0x80 \<noteq> 0 \<and> data + 1 < topp) \<Longrightarrow>
   hdr_loop dbuf topp data sz i = ([data], Inr (accumulate sz (dbuf ! data) i, data + 1))"
  by (subst hdr_loop.simps) (auto simp add: Let_def)

lemma hdr_loop_again:
  "data < length dbuf \<Longrightarrow> dbuf ! data AND 0x80 \<noteq> 0 \<Longrightarrow> data + 1 < topp \<Longrightarrow>
   hdr_loop dbuf topp data sz i =
     (data # fst (hdr_loop dbuf topp (data + 1) (accumulate sz (dbuf ! data) i) (i + 7)),
      snd (hdr_loop dbuf topp (data + 1) (accumulate sz (dbuf ! data) i) (i + 7)))"
  by (subst hdr_loop.simps) (simp add: Let_def split: prod.split)

lemma hdr_loop_cases:
  obtains (outside) "length dbuf \<le> data"
  | (exit) "data < length dbuf" "\<not> (dbuf ! data AND 0x80 \<noteq> 0 \<and> data + 1 < topp)"
  | (again) "data < length dbuf" "dbuf ! data AND 0x80 \<noteq> 0" "data + 1 < topp"
  by (cases "length dbuf \<le> data") auto

subsection \<open>The indices read and the cursor\<close>

text \<open>
  Every pass reads exactly one byte, so the list of indices read has one entry per pass
  through the loop body.
\<close>

lemma hdr_loop_reads_hd:
  "\<exists>rest. fst (hdr_loop dbuf topp data sz i) = data # rest"
  by (cases rule: hdr_loop_cases [where dbuf = dbuf and data = data and topp = topp])
     (simp_all add: hdr_loop_outside hdr_loop_exit hdr_loop_again)

lemma hdr_loop_reads_upt:
  "fst (hdr_loop dbuf topp data sz i) =
     [data ..< data + length (fst (hdr_loop dbuf topp data sz i))]"
proof (induction dbuf topp data sz i rule: hdr_loop.induct)
  case (1 dbuf topp data sz i)
  show ?case
  proof (cases rule: hdr_loop_cases [where dbuf = dbuf and data = data and topp = topp])
    case again
    define rs where
      "rs = fst (hdr_loop dbuf topp (data + 1) (accumulate sz (dbuf ! data) i) (i + 7))"
    have "rs = [data + 1 ..< data + 1 + length rs]"
      unfolding rs_def using again by (intro "1.IH") auto
    then have tl: "[Suc data ..< Suc data + length rs] = rs"
      by simp
    have "[data ..< data + length (data # rs)] = data # [Suc data ..< Suc data + length rs]"
      by (simp add: upt_conv_Cons del: upt_Suc)
    also have "\<dots> = data # rs"
      by (simp only: tl)
    finally show ?thesis
      using again by (simp add: hdr_loop_again rs_def)
  qed (simp_all add: hdr_loop_outside hdr_loop_exit)
qed

lemma hdr_loop_reads_length:
  "data < topp \<Longrightarrow> length (fst (hdr_loop dbuf topp data sz i)) \<le> topp - data"
proof (induction dbuf topp data sz i rule: hdr_loop.induct)
  case (1 dbuf topp data sz i)
  show ?case
  proof (cases rule: hdr_loop_cases [where dbuf = dbuf and data = data and topp = topp])
    case again
    have "length (fst (hdr_loop dbuf topp (data + 1) (accumulate sz (dbuf ! data) i) (i + 7)))
            \<le> topp - (data + 1)"
      using again by (intro "1.IH") auto
    then show ?thesis
      using again by (simp add: hdr_loop_again)
  qed (use "1.prems" in \<open>simp_all add: hdr_loop_outside hdr_loop_exit\<close>)
qed

text \<open>
  How a call ends. It returns with the cursor behind the last byte read, or its last read
  is outside the buffer. There is no third way.
\<close>

lemma hdr_loop_outcome:
  "(\<exists>v. snd (hdr_loop dbuf topp data sz i) =
          Inr (v, data + length (fst (hdr_loop dbuf topp data sz i)))) \<or>
   (snd (hdr_loop dbuf topp data sz i) = Inl MemorySafety \<and>
    length dbuf < data + length (fst (hdr_loop dbuf topp data sz i)))"
proof (induction dbuf topp data sz i rule: hdr_loop.induct)
  case (1 dbuf topp data sz i)
  show ?case
  proof (cases rule: hdr_loop_cases [where dbuf = dbuf and data = data and topp = topp])
    case again
    define r where
      "r = hdr_loop dbuf topp (data + 1) (accumulate sz (dbuf ! data) i) (i + 7)"
    have "(\<exists>v. snd r = Inr (v, data + 1 + length (fst r))) \<or>
        (snd r = Inl MemorySafety \<and> length dbuf < data + 1 + length (fst r))"
      unfolding r_def using again by (intro "1.IH") auto
    then show ?thesis
      using again by (simp add: hdr_loop_again r_def)
  qed (simp_all add: hdr_loop_outside hdr_loop_exit)
qed

lemma hdr_loop_cursor:
  "snd (hdr_loop dbuf topp data sz i) = Inr (s, c) \<Longrightarrow>
   c = data + length (fst (hdr_loop dbuf topp data sz i))"
  using hdr_loop_outcome [of dbuf topp data sz i] by auto

lemma hdr_loop_memory_safe:
  assumes "data < topp" and "topp \<le> length dbuf"
  shows "\<exists>v. snd (hdr_loop dbuf topp data sz i) =
           Inr (v, data + length (fst (hdr_loop dbuf topp data sz i)))"
proof -
  from hdr_loop_reads_length [OF assms(1), of dbuf sz i] assms
  have "data + length (fst (hdr_loop dbuf topp data sz i)) \<le> length dbuf"
    by simp
  with hdr_loop_outcome [of dbuf topp data sz i] show ?thesis
    by auto
qed

subsection \<open>Groups, shifts and the accumulated size\<close>

lemma promoted_group: "uint (b :: uchar) AND NOT 0x80 = int (unat (b AND 0x7F))"
proof -
  have "uint b AND NOT 0x80 = take_bit 8 (uint b) AND NOT 0x80"
    by (simp add: bintr_uint)
  also have "\<dots> = take_bit 8 (uint b) AND take_bit 8 (NOT 0x80 :: int)"
    by (metis and.assoc take_bit_and take_bit_eq_mask and.commute)
  also have "\<dots> = uint b AND 0x7F"
    by (simp add: bintr_uint)
  also have "\<dots> = uint (b AND 0x7F)"
    by (simp add: uint_and)
  finally show ?thesis by simp
qed

lemma group_bound: "unat ((b :: uchar) AND 0x7F) < 128"
proof -
  have "unat (b AND 0x7F) \<le> unat (0x7F :: uchar)"
    by (rule word_and_le1 [THEN word_le_nat_alt [THEN iffD1]])
  then show ?thesis by simp
qed

lemma shl_int_group:
  assumes "i < 32" and "g * 2 ^ i < 2 ^ 31"
  shows "shl_int (int g) i = Some (int g * 2 ^ i)"
proof -
  have "int (g * 2 ^ i) < int (2 ^ 31)"
    using assms(2) by (rule iffD2 [OF of_nat_less_iff])
  then have "int g * 2 ^ i \<le> INT_MAX"
    by (simp add: INT_MAX_def)
  with assms(1) show ?thesis
    by (simp add: shl_int_def)
qed

lemma accumulate_group:
  assumes "i < 32" and "unat (b AND 0x7F) * 2 ^ i < 2 ^ 31"
  shows "accumulate (Some s) b i = Some (s OR word_of_int (int (unat (b AND 0x7F)) * 2 ^ i))"
  unfolding accumulate_def promoted_group shl_int_group [OF assms] by simp

text \<open>
  \<open>size |= v\<close> adds the shifted group: the bits gathered so far all lie below the
  shift count.
\<close>

lemma or_accumulate:
  fixes a g i :: nat
  assumes "a < 2 ^ i"
  shows "(of_nat a :: ulong) OR word_of_int (int g * 2 ^ i) = of_nat (a + g * 2 ^ i)"
proof -
  have a: "take_bit i a = a"
    using assms by (simp add: take_bit_nat_eq_self)
  have "(of_nat a :: ulong) OR word_of_int (int g * 2 ^ i)
      = of_nat (take_bit i a) OR push_bit i (of_nat g)"
    by (simp add: a push_bit_eq_mult)
  also have "\<dots> = of_nat (take_bit i a) + push_bit i (of_nat g)"
    by (rule disjunctive_add [symmetric]) (auto simp add: bit_simps)
  also have "\<dots> = of_nat (a + g * 2 ^ i)"
    by (simp add: a push_bit_eq_mult)
  finally show ?thesis .
qed

lemma holds_at_Cons:
  assumes "holds_at dbuf data (b # bs)"
  shows "data < length dbuf" and "dbuf ! data = b" and "holds_at dbuf (data + 1) bs"
proof -
  from assms have eq: "take (Suc (length bs)) (drop data dbuf) = b # bs"
    by (simp add: holds_at_def)
  show lt: "data < length dbuf"
    using eq by (cases "data < length dbuf") auto
  then have "drop data dbuf = dbuf ! data # drop (Suc data) dbuf"
    by (simp add: Cons_nth_drop_Suc)
  with eq show "dbuf ! data = b" and "holds_at dbuf (data + 1) bs"
    by (simp_all add: holds_at_def)
qed

subsection \<open>What the loop returns on a run of bytes\<close>

text \<open>
  The loop started in its \<open>k\<close>-th pass on a run \<open>bs\<close> of bytes, all but the last
  continued, that either ends in a byte without continuation bit or ends at \<open>topp\<close>:
  as long as no more than five groups are read in all and the value stays below
  \<open>2 ^ 31\<close>, every shift is one that C defines and the loop returns the accumulated
  value with the cursor behind the run.
\<close>

lemma hdr_loop_decodes:
  assumes "bs \<noteq> []"
    and "list_all continued (butlast bs)"
    and "holds_at dbuf data bs"
    and "data + length bs \<le> topp"
    and "\<not> continued (last bs) \<or> data + length bs = topp"
    and "k + length bs \<le> 5"
    and "a < 2 ^ (7 * k)"
    and "a + 2 ^ (7 * k) * varint_value bs < 2 ^ 31"
  shows "hdr_loop dbuf topp data (Some (of_nat a)) (7 * k) =
           ([data ..< data + length bs],
            Inr (Some (of_nat (a + 2 ^ (7 * k) * varint_value bs)), data + length bs))"
  using assms
proof (induction bs arbitrary: data a k)
  case Nil
  then show ?case by simp
next
  case (Cons b bs)
  define g where "g = unat (b AND 0x7F)"
  have g: "g < 128"
    unfolding g_def by (rule group_bound)
  from holds_at_Cons [OF Cons.prems(3)]
  have inb: "data < length dbuf" and b: "dbuf ! data = b"
    and rest: "holds_at dbuf (data + 1) bs"
    by simp_all
  have k: "7 * k < 32"
    using Cons.prems(6) by simp
  have val: "varint_value (b # bs) = g + 128 * varint_value bs"
    by (simp add: g_def)
  have "g * 2 ^ (7 * k) \<le> 2 ^ (7 * k) * varint_value (b # bs)"
    unfolding val by (simp add: algebra_simps)
  with Cons.prems(8) have "g * 2 ^ (7 * k) < 2 ^ 31"
    by linarith
  with k have "accumulate (Some (of_nat a)) b (7 * k) =
      Some (of_nat a OR word_of_int (int g * 2 ^ (7 * k)))"
    unfolding g_def by (rule accumulate_group)
  also have "of_nat a OR word_of_int (int g * 2 ^ (7 * k)) = (of_nat (a + g * 2 ^ (7 * k)) :: ulong)"
    using Cons.prems(7) by (rule or_accumulate)
  finally have acc:
    "accumulate (Some (of_nat a)) (dbuf ! data) (7 * k) = Some (of_nat (a + g * 2 ^ (7 * k)))"
    unfolding b .
  show ?case
  proof (cases "bs = []")
    case True
    with Cons.prems(5) have "\<not> (dbuf ! data AND 0x80 \<noteq> 0 \<and> data + 1 < topp)"
      by (auto simp add: b continued_def)
    from hdr_loop_exit [OF inb this, of "Some (of_nat a)" "7 * k"]
    have "hdr_loop dbuf topp data (Some (of_nat a)) (7 * k) =
            ([data], Inr (Some (of_nat (a + g * 2 ^ (7 * k))), data + 1))"
      unfolding acc .
    then show ?thesis
      using True by (simp add: g_def mult.commute)
  next
    case False
    then have "b \<in> set (butlast (b # bs))"
      by simp
    with Cons.prems(2) have cont: "dbuf ! data AND 0x80 \<noteq> 0"
      unfolding b list_all_iff continued_def by blast
    from False Cons.prems(4) have more: "data + 1 < topp"
      by (cases bs) simp_all
    have a': "a + g * 2 ^ (7 * k) < 2 ^ (7 * (k + 1))"
    proof -
      have "a + g * 2 ^ (7 * k) < 2 ^ (7 * k) + 127 * 2 ^ (7 * k)"
        using Cons.prems(7) g by (intro add_less_le_mono mult_le_mono1) simp_all
      also have "\<dots> = 2 ^ (7 * (k + 1))"
        by (simp add: power_add)
      finally show ?thesis .
    qed
    have sum: "a + g * 2 ^ (7 * k) + 2 ^ (7 * (k + 1)) * varint_value bs
             = a + 2 ^ (7 * k) * varint_value (b # bs)"
      unfolding val by (simp add: power_add algebra_simps)
    have IH:
      "hdr_loop dbuf topp (data + 1) (Some (of_nat (a + g * 2 ^ (7 * k)))) (7 * (k + 1)) =
           ([data + 1 ..< data + 1 + length bs],
            Inr (Some (of_nat (a + g * 2 ^ (7 * k) + 2 ^ (7 * (k + 1)) * varint_value bs)),
                 data + 1 + length bs))"
    proof (rule Cons.IH [OF False _ rest _ _ _ a'])
      show "list_all continued (butlast bs)"
        using Cons.prems(2) False by simp
      show "data + 1 + length bs \<le> topp"
        using Cons.prems(4) by simp
      show "\<not> continued (last bs) \<or> data + 1 + length bs = topp"
        using Cons.prems(5) False by simp
      show "k + 1 + length bs \<le> 5"
        using Cons.prems(6) by simp
      show "a + g * 2 ^ (7 * k) + 2 ^ (7 * (k + 1)) * varint_value bs < 2 ^ 31"
        unfolding sum by (rule Cons.prems(8))
    qed
    have step: "7 * k + 7 = 7 * (k + 1)"
      by simp
    show ?thesis
      unfolding hdr_loop_again [OF inb cont more] acc step IH sum
      by (simp add: upt_conv_Cons del: upt_Suc)
  qed
qed

lemma get_delta_hdr_size_run:
  assumes "bs \<noteq> []"
    and "list_all continued (butlast bs)"
    and "holds_at dbuf datap bs"
    and "datap + length bs \<le> topp"
    and "\<not> continued (last bs) \<or> datap + length bs = topp"
    and "length bs \<le> 5"
    and "varint_value bs < 2 ^ 31"
  shows "get_delta_hdr_size dbuf datap topp =
           ([datap ..< datap + length bs],
            Inr (Some (of_nat (varint_value bs)), datap + length bs))"
  using hdr_loop_decodes [of bs dbuf datap topp 0 0] assms
  by (simp add: get_delta_hdr_size_def)

subsection \<open>The encoding of the specification\<close>

lemma group_of_or_exp: "(w OR 2 ^ k) AND mask k = w AND (mask k :: uchar)"
  by (rule bit_eqI) (auto simp add: bit_simps)

lemma continued_or_exp: "k < 8 \<Longrightarrow> (w OR 2 ^ k) AND 2 ^ k \<noteq> (0 :: uchar)"
  by (auto simp add: bit_eq_iff bit_simps)

lemma last_group_exp:
  assumes "n < 2 ^ k"
  shows "(of_nat n :: uchar) AND 2 ^ k = 0"
proof -
  have "take_bit k n = n"
    using assms by (simp add: take_bit_nat_eq_self)
  then have "(of_nat n :: uchar) AND 2 ^ k = take_bit k (of_nat n) AND 2 ^ k"
    by (simp add: take_bit_of_nat)
  also have "\<dots> = 0"
    by (rule bit_eqI) (auto simp add: bit_simps)
  finally show ?thesis .
qed

lemma group_of_nat_exp:
  assumes "k < 8"
  shows "unat ((of_nat n :: uchar) AND mask k) = n mod 2 ^ k"
proof -
  have "(of_nat n :: uchar) AND mask k = of_nat (take_bit k n)"
    by (simp add: take_bit_of_nat flip: take_bit_eq_mask)
  moreover have "take_bit k n < 2 ^ 8"
    using assms
    by (meson less_imp_le_nat less_le_trans one_le_numeral power_increasing
        take_bit_nat_less_exp)
  ultimately show ?thesis
    by (simp add: unat_of_nat take_bit_eq_mod)
qed

lemma group_of_or: "(w OR 0x80) AND 0x7F = w AND (0x7F :: uchar)"
  using group_of_or_exp [of w 7] by (simp add: mask_eq_exp_minus_1)

lemma continued_or: "continued (w OR 0x80)"
  using continued_or_exp [of 7 w] by (simp add: continued_def)

lemma last_group: "n < 128 \<Longrightarrow> \<not> continued (of_nat n)"
  using last_group_exp [of n 7] by (simp add: continued_def)

lemma group_of_nat: "unat ((of_nat n :: uchar) AND 0x7F) = n mod 128"
  using group_of_nat_exp [of 7 n] by (simp add: mask_eq_exp_minus_1)

lemma varint_encode_nonempty: "varint_encode n \<noteq> []"
  by (subst varint_encode.simps) simp

lemma varint_encode_continued: "list_all continued (butlast (varint_encode n))"
proof (induction n rule: varint_encode.induct)
  case (1 n)
  show ?case
  proof (cases "n < 128")
    case True
    then show ?thesis by (subst varint_encode.simps) simp
  next
    case False
    with 1 show ?thesis
      by (subst varint_encode.simps) (simp add: varint_encode_nonempty continued_or)
  qed
qed

lemma varint_encode_last: "\<not> continued (last (varint_encode n))"
proof (induction n rule: varint_encode.induct)
  case (1 n)
  show ?case
  proof (cases "n < 128")
    case True
    then show ?thesis by (subst varint_encode.simps) (simp add: last_group)
  next
    case False
    with 1 show ?thesis
      by (subst varint_encode.simps) (simp add: varint_encode_nonempty)
  qed
qed

lemma well_formed_varint_encode: "well_formed_varint (varint_encode n)"
  by (simp add: well_formed_varint_def varint_encode_nonempty varint_encode_continued
      varint_encode_last)

lemma varint_value_encode: "varint_value (varint_encode n) = n"
proof (induction n rule: varint_encode.induct)
  case (1 n)
  show ?case
  proof (cases "n < 128")
    case True
    then show ?thesis by (subst varint_encode.simps) (simp add: group_of_nat)
  next
    case False
    with 1 show ?thesis
      by (subst varint_encode.simps) (simp add: group_of_or group_of_nat)
  qed
qed

lemma length_varint_encode:
  "n < 2 ^ (7 * Suc k) \<Longrightarrow> length (varint_encode n) \<le> Suc k"
proof (induction k arbitrary: n)
  case 0
  then show ?case by (subst varint_encode.simps) simp
next
  case (Suc k)
  show ?case
  proof (cases "n < 128")
    case True
    then show ?thesis by (subst varint_encode.simps) simp
  next
    case False
    from Suc.prems have "n div 128 < 2 ^ (7 * Suc k)"
      by (simp add: less_mult_imp_div_less power_add)
    from Suc.IH [OF this] False show ?thesis
      by (subst varint_encode.simps) simp
  qed
qed

text \<open>
  Within the range where C defines every shift of the reader, the reader inverts the
  encoder: a value below \<open>2 ^ 31\<close> is encoded in at most five bytes, and reading them
  back returns the value and leaves the cursor behind the encoding, wherever \<open>topp\<close>
  lies behind it.
\<close>

lemma get_delta_hdr_size_encode:
  assumes "n < 2 ^ 31"
    and "holds_at dbuf datap (varint_encode n)"
    and "datap + length (varint_encode n) \<le> topp"
  shows "get_delta_hdr_size dbuf datap topp =
           ([datap ..< datap + length (varint_encode n)],
            Inr (Some (of_nat n), datap + length (varint_encode n)))"
proof -
  from assms(1) have "n < 2 ^ (7 * Suc 4)"
    by simp
  then have "length (varint_encode n) \<le> 5"
    using length_varint_encode [of n 4] by simp
  with assms show ?thesis
    using get_delta_hdr_size_run [of "varint_encode n" dbuf datap topp]
    by (simp add: varint_encode_nonempty varint_encode_continued varint_encode_last
        varint_value_encode)
qed

text \<open>
  Two varints in a row, each of at most five bytes and below \<open>2 ^ 31\<close>: the first call
  returns the first value and leaves the cursor at the second varint, from where the
  second call returns the second value.
\<close>

lemma get_delta_hdr_size_twice:
  assumes "well_formed_varint v1" and "length v1 \<le> 5" and "varint_value v1 < 2 ^ 31"
    and "well_formed_varint v2" and "length v2 \<le> 5" and "varint_value v2 < 2 ^ 31"
    and "length (v1 @ v2 @ rest) \<le> topp"
  shows "snd (get_delta_hdr_size (v1 @ v2 @ rest) 0 topp) =
           Inr (Some (of_nat (varint_value v1)), length v1)"
    and "snd (get_delta_hdr_size (v1 @ v2 @ rest) (length v1) topp) =
           Inr (Some (of_nat (varint_value v2)), length v1 + length v2)"
proof -
  have "holds_at (v1 @ v2 @ rest) 0 v1"
    by (simp add: holds_at_def)
  with assms show "snd (get_delta_hdr_size (v1 @ v2 @ rest) 0 topp) =
           Inr (Some (of_nat (varint_value v1)), length v1)"
    using get_delta_hdr_size_run [of v1 "v1 @ v2 @ rest" 0 topp]
    by (simp add: well_formed_varint_def)
  have "holds_at (v1 @ v2 @ rest) (length v1) v2"
    by (simp add: holds_at_def)
  with assms show "snd (get_delta_hdr_size (v1 @ v2 @ rest) (length v1) topp) =
           Inr (Some (of_nat (varint_value v2)), length v1 + length v2)"
    using get_delta_hdr_size_run [of v2 "v1 @ v2 @ rest" "length v1" topp]
    by (simp add: well_formed_varint_def)
qed

section \<open>The claims about the header reader\<close>

text \<open>
  C1 (varint round trip). The claim: for every unsigned integer \<open>n\<close>, reading back the
  encoding of \<open>n\<close> returns \<open>n\<close> and leaves the cursor behind the encoding. The reader
  accumulates into an \<open>unsigned long\<close>, but it shifts each group as an \<open>int\<close>. The
  encoding of \<open>2147483648 = 2 ^ 31\<close> is \<open>80 80 80 80 08\<close>; its fifth group is 8 and is
  shifted by 28, which is past \<open>INT_MAX\<close>. The shifted \<open>int\<close> wraps to \<open>- 2 ^ 31\<close>,
  its sign is extended, and the call returns \<open>0xFFFFFFFF80000000\<close> instead of
  \<open>2 ^ 31\<close>. (\<open>get_delta_hdr_size_encode\<close> above shows the round trip for every
  value below \<open>2 ^ 31\<close>.)
\<close>

theorem get_delta_hdr_size_shift_overflow:
  "varint_encode 2147483648 = [0x80, 0x80, 0x80, 0x80, 0x08] \<and>
   get_delta_hdr_size [0x80, 0x80, 0x80, 0x80, 0x08] 0 5 =
     ([0, 1, 2, 3, 4], Inr (Some 0xFFFFFFFF80000000, 5))"
  by (simp add: varint_encode.simps get_delta_hdr_size_def hdr_loop.simps accumulate_def
      shl_int_def INT_MAX_def)

text \<open>
  C2 (truncated input), as amended. The claim: when every byte from \<open>*datap\<close> up to
  \<open>top\<close> has the continuation bit, the reader reports malformed input. The reader has
  no way to report anything but a size. What it does, for a run of at most five such bytes
  whose groups stay below \<open>2 ^ 31\<close> (so that every shift is defined): it reads up to
  \<open>top\<close>, stops there, and returns the value accumulated from the groups as an
  ordinary size, with the cursor equal to \<open>top\<close>.
\<close>

theorem truncated_header_returns_value:
  assumes "datap < topp" and "topp \<le> length dbuf"
    and "list_all continued (take (topp - datap) (drop datap dbuf))"
    and "topp - datap \<le> 5"
    and "varint_value (take (topp - datap) (drop datap dbuf)) < 2 ^ 31"
  shows "get_delta_hdr_size dbuf datap topp =
           ([datap ..< topp],
            Inr (Some (of_nat (varint_value (take (topp - datap) (drop datap dbuf)))), topp))"
proof -
  define bs where "bs = take (topp - datap) (drop datap dbuf)"
  have len: "length bs = topp - datap"
    using assms(1,2) by (simp add: bs_def)
  then have ne: "bs \<noteq> []"
    using assms(1) by auto
  have "list_all continued (butlast bs)"
    using assms(3) unfolding bs_def [symmetric] list_all_iff by (auto dest: in_set_butlastD)
  moreover have "holds_at dbuf datap bs"
    using len by (simp add: holds_at_def bs_def)
  moreover have "datap + length bs = topp"
    using len assms(1) by simp
  ultimately show ?thesis
    using get_delta_hdr_size_run [of bs dbuf datap topp] ne assms(4,5) len
    by (simp add: bs_def [symmetric])
qed

theorem truncated_header_returns_value_witness:
  "(0 :: nat) < 2 \<and> 2 \<le> length [0x85, 0x81 :: uchar] \<and>
   list_all continued (take (2 - 0) (drop 0 [0x85, 0x81])) \<and>
   varint_value (take (2 - 0) (drop 0 [0x85, 0x81])) = 133 \<and>
   get_delta_hdr_size [0x85, 0x81] 0 2 = ([0, 1], Inr (Some 133, 2))"
  using truncated_header_returns_value [of 0 2 "[0x85, 0x81]"]
  by (simp add: continued_def upt_conv_Cons)

text \<open>
  The claim of C2 as it is written fails on the one-byte buffer \<open>80\<close> with \<open>top\<close>
  behind it: its only byte is continued, and the call returns the size 0.
\<close>

theorem truncated_header_not_reported:
  "list_all continued [0x80] \<and> get_delta_hdr_size [0x80] 0 1 = ([0], Inr (Some 0, 1))"
  by (simp add: continued_def get_delta_hdr_size_def hdr_loop.simps accumulate_def shl_int_def
      INT_MAX_def)

text \<open>
  C3 (bounded decode). For a call with \<open>*datap\<close> strictly before \<open>top\<close>, whatever the
  buffer holds and however many bytes are continued: every index read lies in the
  half-open range from \<open>*datap\<close> to \<open>top\<close>, and the call returns with the cursor
  behind the last byte read and at most at \<open>top\<close>. The one other outcome is a read
  outside the buffer, and it needs a \<open>top\<close> that lies behind the end of the buffer.
\<close>

theorem get_delta_hdr_size_reads_in_range:
  assumes "datap < topp"
  shows "set (fst (get_delta_hdr_size dbuf datap topp)) \<subseteq> {datap ..< topp} \<and>
         ((\<exists>v c. snd (get_delta_hdr_size dbuf datap topp) = Inr (v, c) \<and>
                 c = datap + length (fst (get_delta_hdr_size dbuf datap topp)) \<and> c \<le> topp) \<or>
          (snd (get_delta_hdr_size dbuf datap topp) = Inl MemorySafety \<and> length dbuf < topp))"
proof -
  define r where "r = hdr_loop dbuf topp datap (Some 0) 0"
  have upt: "fst r = [datap ..< datap + length (fst r)]"
    unfolding r_def by (rule hdr_loop_reads_upt)
  have len: "length (fst r) \<le> topp - datap"
    unfolding r_def using assms by (rule hdr_loop_reads_length)
  have "set [datap ..< datap + length (fst r)] \<subseteq> {datap ..< topp}"
    using len assms by auto
  then have reads: "set (fst r) \<subseteq> {datap ..< topp}"
    using upt by simp
  have "(\<exists>v. snd r = Inr (v, datap + length (fst r))) \<or>
      (snd r = Inl MemorySafety \<and> length dbuf < datap + length (fst r))"
    unfolding r_def by (rule hdr_loop_outcome)
  moreover have "datap + length (fst r) \<le> topp"
    using len assms by simp
  ultimately have "(\<exists>v c. snd r = Inr (v, c) \<and> c = datap + length (fst r) \<and> c \<le> topp) \<or>
      (snd r = Inl MemorySafety \<and> length dbuf < topp)"
    by auto
  with reads show ?thesis
    by (simp add: get_delta_hdr_size_def r_def)
qed

text \<open>
  Eight continued bytes with \<open>top\<close> behind them: the reader makes eight passes, reads
  the indices 0 to 7 and returns with the cursor at \<open>top\<close>. After the sixth byte its
  size is no longer known.
\<close>

lemma eight_continued:
  "get_delta_hdr_size [0xFF, 0xFF, 0xFF, 0xFF, 0xFF, 0xFF, 0xFF, 0xFF] 0 8 =
     ([0, 1, 2, 3, 4, 5, 6, 7], Inr (None, 8))"
  by (simp add: get_delta_hdr_size_def hdr_loop.simps accumulate_def shl_int_def INT_MAX_def)

theorem get_delta_hdr_size_reads_in_range_witness:
  "(0 :: nat) < 8 \<and>
   get_delta_hdr_size [0xFF, 0xFF, 0xFF, 0xFF, 0xFF, 0xFF, 0xFF, 0xFF] 0 8 =
     ([0, 1, 2, 3, 4, 5, 6, 7], Inr (None, 8)) \<and>
   set (fst (get_delta_hdr_size [0xFF, 0xFF, 0xFF, 0xFF, 0xFF, 0xFF, 0xFF, 0xFF] 0 8))
     \<subseteq> {0 ..< 8}"
  using get_delta_hdr_size_reads_in_range
    [of 0 8 "[0xFF, 0xFF, 0xFF, 0xFF, 0xFF, 0xFF, 0xFF, 0xFF]"] eight_continued
  by simp

text \<open>
  C4 (two-call header parsing). The claim: on a stream that begins with two well-formed
  varints, the first call returns the first value and leaves the cursor at the second
  varint, and the second call returns the second value. The cursor is the only thing a
  call changes, and \<open>get_delta_hdr_size_twice\<close> above shows both calls for varints of at
  most five bytes below \<open>2 ^ 31\<close>. The claim fails where the first value is larger:
  on the stream \<open>80 80 80 80 08 0E\<close> (source size \<open>2 ^ 31\<close>, target size 14) the
  first call overflows its \<open>int\<close> shift and returns \<open>0xFFFFFFFF80000000\<close>, not
  \<open>2 ^ 31\<close>. It leaves the cursor at the second varint, and the second call returns 14.
\<close>

theorem two_call_header_shift_overflow:
  "well_formed_varint [0x80, 0x80, 0x80, 0x80, 0x08] \<and>
   varint_value [0x80, 0x80, 0x80, 0x80, 0x08] = 2147483648 \<and>
   well_formed_varint [0x0E] \<and> varint_value [0x0E] = 14 \<and>
   get_delta_hdr_size ([0x80, 0x80, 0x80, 0x80, 0x08] @ [0x0E]) 0 6 =
     ([0, 1, 2, 3, 4], Inr (Some 0xFFFFFFFF80000000, 5)) \<and>
   get_delta_hdr_size ([0x80, 0x80, 0x80, 0x80, 0x08] @ [0x0E]) 5 6 =
     ([5], Inr (Some 14, 6))"
  by (simp add: well_formed_varint_def continued_def get_delta_hdr_size_def hdr_loop.simps
      accumulate_def shl_int_def INT_MAX_def)

text \<open>
  C7 (decoder termination). \<open>hdr_loop\<close> is a total function: its recursion was shown
  to terminate, the distance from \<open>data\<close> to \<open>top\<close> shrinking with every pass, and
  the loop has no exit but its two conditions. For a call with \<open>*datap\<close> strictly
  before \<open>top\<close>, whatever the buffer holds, the loop body runs \<open>n\<close> times with
  \<open>n\<close> at least 1 and at most \<open>top - *datap\<close>: it reads the \<open>n\<close> bytes from
  \<open>*datap\<close> on, one per pass, and returns with the cursor moved by \<open>n\<close>, unless its
  last read is outside the buffer.
\<close>

theorem get_delta_hdr_size_passes_bounded:
  assumes "datap < topp"
  shows "\<exists>n. 1 \<le> n \<and> n \<le> topp - datap \<and>
           fst (get_delta_hdr_size dbuf datap topp) = [datap ..< datap + n] \<and>
           ((\<exists>v. snd (get_delta_hdr_size dbuf datap topp) = Inr (v, datap + n)) \<or>
            (snd (get_delta_hdr_size dbuf datap topp) = Inl MemorySafety \<and>
             length dbuf < datap + n))"
proof -
  define r where "r = hdr_loop dbuf topp datap (Some 0) 0"
  define n where "n = length (fst r)"
  obtain rest where "fst r = datap # rest"
    unfolding r_def using hdr_loop_reads_hd by blast
  then have "1 \<le> n"
    by (simp add: n_def)
  moreover have "n \<le> topp - datap"
    unfolding n_def r_def using assms by (rule hdr_loop_reads_length)
  moreover have "fst r = [datap ..< datap + n]"
    unfolding n_def r_def by (rule hdr_loop_reads_upt)
  moreover have "(\<exists>v. snd r = Inr (v, datap + n)) \<or>
      (snd r = Inl MemorySafety \<and> length dbuf < datap + n)"
    unfolding n_def r_def by (rule hdr_loop_outcome)
  ultimately show ?thesis
    unfolding get_delta_hdr_size_def r_def [symmetric] by blast
qed

text \<open>
  Ten continued bytes with \<open>top\<close> behind them: ten passes, ten bytes read, and the
  cursor at \<open>top\<close>.
\<close>

lemma ten_continued:
  "get_delta_hdr_size [0xFF, 0xFF, 0xFF, 0xFF, 0xFF, 0xFF, 0xFF, 0xFF, 0xFF, 0xFF] 0 10 =
     ([0, 1, 2, 3, 4, 5, 6, 7, 8, 9], Inr (None, 10))"
  by (simp add: get_delta_hdr_size_def hdr_loop.simps accumulate_def shl_int_def INT_MAX_def)

theorem get_delta_hdr_size_passes_bounded_witness:
  "(0 :: nat) < 10 \<and>
   get_delta_hdr_size [0xFF, 0xFF, 0xFF, 0xFF, 0xFF, 0xFF, 0xFF, 0xFF, 0xFF, 0xFF] 0 10 =
     ([0, 1, 2, 3, 4, 5, 6, 7, 8, 9], Inr (None, 10)) \<and>
   length (fst (get_delta_hdr_size
     [0xFF, 0xFF, 0xFF, 0xFF, 0xFF, 0xFF, 0xFF, 0xFF, 0xFF, 0xFF] 0 10)) \<le> 10 - 0"
proof -
  from get_delta_hdr_size_passes_bounded
    [of 0 10 "[0xFF, 0xFF, 0xFF, 0xFF, 0xFF, 0xFF, 0xFF, 0xFF, 0xFF, 0xFF]"]
  obtain n where "n \<le> 10 - 0"
    and "fst (get_delta_hdr_size
      [0xFF, 0xFF, 0xFF, 0xFF, 0xFF, 0xFF, 0xFF, 0xFF, 0xFF, 0xFF] 0 10) = [0 ..< 0 + n]"
    by auto
  then have "length (fst (get_delta_hdr_size
      [0xFF, 0xFF, 0xFF, 0xFF, 0xFF, 0xFF, 0xFF, 0xFF, 0xFF, 0xFF] 0 10)) \<le> 10 - 0"
    by simp
  with ten_continued show ?thesis
    by simp
qed



section \<open>Properties of the delta format and the delta builder\<close>

subsection \<open>Encoding and parsing\<close>

text \<open>
  One call of the header reader on an encoding that stands in the stream: for a value
  below \<open>2 ^ 31\<close> it gives the value and the cursor behind the encoding.
\<close>

lemma read_size_encode:
  assumes "n < 2 ^ 31"
  shows "read_size (pre @ varint_encode n @ rest) (length pre) =
           Some (n, length pre + length (varint_encode n))"
proof -
  have "holds_at (pre @ varint_encode n @ rest) (length pre) (varint_encode n)"
    by (simp add: holds_at_def)
  moreover have "length pre + length (varint_encode n) \<le> length (pre @ varint_encode n @ rest)"
    by simp
  ultimately have "get_delta_hdr_size (pre @ varint_encode n @ rest) (length pre)
        (length (pre @ varint_encode n @ rest)) =
      ([length pre ..< length pre + length (varint_encode n)],
       Inr (Some (of_nat n), length pre + length (varint_encode n)))"
    using assms by (intro get_delta_hdr_size_encode)
  moreover have "unat (of_nat n :: ulong) = n"
  proof -
    have "n < 2 ^ 64"
      using assms by (rule less_trans) simp
    then show ?thesis
      by (simp add: unat_of_nat)
  qed
  ultimately show ?thesis
    by (simp add: read_size_def)
qed

lemma length_le_digits: "length (le_digits k v) = k"
  by (induction k arbitrary: v) simp_all

lemma le_digits_bound: "d \<in> set (le_digits k v) \<Longrightarrow> d < 256"
  by (induction k arbitrary: v) auto

lemma le_value_digits: "le_value (le_digits k v) = v mod 256 ^ k"
proof (induction k arbitrary: v)
  case 0
  then show ?case by simp
next
  case (Suc k)
  have "v mod 256 + 256 * (v div 256 mod 256 ^ k) = v mod (256 * 256 ^ k)"
    by (simp add: mod_mult2_eq)
  with Suc show ?case by simp
qed

lemma bits_of_value: "bits_of (length ps) (bits_value ps + 2 ^ length ps * m) = ps"
  by (induction ps) simp_all

lemma bits_value_bound: "bits_value ps < 2 ^ length ps"
  by (induction ps) simp_all

lemma spread_present:
  "\<forall>d \<in> set ds. d < 256 \<Longrightarrow>
   spread (map (\<lambda>d. d \<noteq> 0) ds) (map of_nat (filter (\<lambda>d. d \<noteq> 0) ds)) = ds"
  by (induction ds) (simp_all add: unat_of_nat)

lemma count_present:
  "length (filter (\<lambda>p. p) (map (\<lambda>d. d \<noteq> 0) ds)) = length (filter (\<lambda>d. d \<noteq> (0::nat)) ds)"
  by (induction ds) simp_all

lemma parse_ops_copy:
  assumes "off < 2 ^ 32" and "1 \<le> len" and "len \<le> 0x10000"
  shows "parse_ops (encode_copy off len @ rest) = map_option (Cons (Copy off len)) (parse_ops rest)"
proof -
  define len' where "len' = (if len = 0x10000 then 0 else len)"
  define ds where "ds = le_digits 4 off @ le_digits 3 len'"
  define ps where "ps = map (\<lambda>d. d \<noteq> 0) ds"
  define lits :: "uchar list" where "lits = map of_nat (filter (\<lambda>d. d \<noteq> 0) ds)"
  define cn where "cn = 128 + bits_value ps"
  have enc: "encode_copy off len = of_nat cn # lits"
    unfolding encode_copy_def Let_def cn_def ps_def lits_def ds_def len'_def ..
  have lps: "length ps = 7"
    by (simp add: ps_def ds_def length_le_digits)
  have "bits_value ps < 2 ^ length ps"
    by (rule bits_value_bound)
  then have bv: "bits_value ps < 128"
    by (simp add: lps)
  then have "cn < 256"
    by (simp add: cn_def)
  then have c: "unat (of_nat cn :: uchar) = cn"
    by (simp add: unat_of_nat)
  have c128: "128 \<le> cn"
    by (simp add: cn_def)
  have "bits_of (length ps) (bits_value ps + 2 ^ length ps * 1) = ps"
    by (rule bits_of_value)
  then have bits: "bits_of 7 cn = ps"
    by (simp add: lps add.commute cn_def)
  have n: "length (filter (\<lambda>p. p) ps) = length lits"
    unfolding ps_def lits_def length_map by (rule count_present)
  have "\<forall>d \<in> set ds. d < 256"
    by (auto simp add: ds_def dest: le_digits_bound)
  then have sp: "spread ps lits = ds"
    unfolding ps_def lits_def by (rule spread_present)
  have off: "le_value (take 4 ds) = off"
    using assms(1) by (simp add: ds_def length_le_digits le_value_digits)
  have "len' < 256 ^ 3"
    using assms(3) by (simp add: len'_def)
  then have len: "le_value (drop 4 ds) = len'"
    by (simp add: ds_def length_le_digits le_value_digits)
  have undo: "len' = 0 \<longrightarrow> len = 0x10000" "0 < len' \<longrightarrow> len = len'"
    using assms(2) by (simp_all add: len'_def)
  show ?thesis
    unfolding enc
    using c128 by (simp add: parse_ops.simps c bits n sp off len undo Let_def)
qed

lemma parse_ops_insert:
  assumes "1 \<le> length bs" and "length bs \<le> 127"
  shows "parse_ops (encode_op (Insert bs) @ rest) = map_option (Cons (Insert bs)) (parse_ops rest)"
proof -
  have c: "unat (of_nat (length bs) :: uchar) = length bs"
    using assms(2) by (simp add: unat_of_nat)
  moreover have "(of_nat (length bs) :: uchar) \<noteq> 0"
    using c assms(1) by (metis not_one_le_zero unat_0)
  ultimately show ?thesis
    using assms by (simp add: parse_ops.simps)
qed

lemma parse_ops_encode:
  "list_all valid_op ops \<Longrightarrow> parse_ops (concat (map encode_op ops)) = Some ops"
proof (induction ops)
  case Nil
  then show ?case by (simp add: parse_ops.simps)
next
  case (Cons op ops)
  then show ?case
    by (cases op) (simp_all add: parse_ops_copy parse_ops_insert del: encode_op.simps(2))
qed

subsection \<open>The effect of operations\<close>

lemma run_ops_append:
  "run_ops S xs = Some a \<Longrightarrow> run_ops S ys = Some b \<Longrightarrow> run_ops S (xs @ ys) = Some (a @ b)"
proof (induction xs arbitrary: a)
  case Nil
  then show ?case by simp
next
  case (Cons op xs)
  then show ?case
    by (cases op) (auto split: if_splits)
qed

lemma run_ops_length:
  "run_ops S ops = Some out \<Longrightarrow> length out = sum_list (map op_length ops)"
proof (induction ops arbitrary: out)
  case Nil
  then show ?case by simp
next
  case (Cons op ops)
  then show ?case
    by (cases op) (auto split: if_splits)
qed

lemma run_ops_inserts: "run_ops S (inserts bs) = Some bs"
proof (induction bs rule: inserts.induct)
  case (1 bs)
  show ?case
  proof (cases "bs = []")
    case True
    then show ?thesis by (subst inserts.simps) simp
  next
    case False
    with 1 show ?thesis by (subst inserts.simps) simp
  qed
qed

lemma valid_inserts: "list_all valid_op (inserts bs)"
proof (induction bs rule: inserts.induct)
  case (1 bs)
  show ?case
  proof (cases "bs = []")
    case True
    then show ?thesis by (subst inserts.simps) simp
  next
    case False
    then have "1 \<le> length (take 127 bs)"
      by (cases bs) simp_all
    with 1 False show ?thesis
      by (subst inserts.simps) simp
  qed
qed

lemma run_ops_copies:
  "off + len \<le> length S \<Longrightarrow> run_ops S (copies off len) = Some (take len (drop off S))"
proof (induction off len rule: copies.induct)
  case (1 off len)
  show ?case
  proof (cases "len = 0")
    case True
    then show ?thesis by (subst copies.simps) simp
  next
    case False
    define n where "n = min len 0x10000"
    have n: "n \<le> len"
      by (simp add: n_def)
    have IH: "run_ops S (copies (off + n) (len - n)) = Some (take (len - n) (drop (off + n) S))"
      unfolding n_def using False "1.prems" by (intro "1.IH") simp_all
    have "take n (drop off S) @ take (len - n) (drop (off + n) S) = take len (drop off S)"
      using n by (metis add.commute drop_drop le_add_diff_inverse take_add)
    with IH n "1.prems" False show ?thesis
      by (subst copies.simps) (simp add: n_def [symmetric])
  qed
qed

lemma valid_copies:
  "off + len \<le> 2 ^ 32 \<Longrightarrow> list_all valid_op (copies off len)"
proof (induction off len rule: copies.induct)
  case (1 off len)
  show ?case
  proof (cases "len = 0")
    case True
    then show ?thesis by (subst copies.simps) simp
  next
    case False
    define n where "n = min len 0x10000"
    have n: "n \<le> len" "1 \<le> n" "n \<le> 0x10000"
      using False by (simp_all add: n_def)
    have IH: "list_all valid_op (copies (off + n) (len - n))"
      unfolding n_def using False "1.prems" by (intro "1.IH") simp_all
    with n "1.prems" False show ?thesis
      by (subst copies.simps) (simp add: n_def [symmetric])
  qed
qed

subsection \<open>Matches\<close>

lemma reads_fromD: "reads_from src S \<Longrightarrow> src off = Some b \<Longrightarrow> off < length S \<and> S ! off = b"
  by (simp add: reads_from_def)

lemma reads_from_single: "reads_from (agg_byte [\<lparr>buf = S, agg_offset = 0\<rparr>]) S"
  by (simp add: reads_from_def)

lemma match_fwd_sound:
  assumes "reads_from src S"
  shows "match_fwd src off tail \<le> length tail \<and>
         (0 < match_fwd src off tail \<longrightarrow> off + match_fwd src off tail \<le> length S) \<and>
         take (match_fwd src off tail) (drop off S) = take (match_fwd src off tail) tail"
proof (induction tail arbitrary: off)
  case Nil
  show ?case by simp
next
  case (Cons x xs)
  show ?case
  proof (cases "src off = Some x")
    case False
    then show ?thesis by simp
  next
    case True
    from reads_fromD [OF assms True] have inb: "off < length S" and x: "S ! off = x"
      by simp_all
    define n where "n = match_fwd src (Suc off) xs"
    from Cons.IH [of "Suc off"] have IH: "n \<le> length xs" "0 < n \<longrightarrow> Suc off + n \<le> length S"
      "take n (drop (Suc off) S) = take n xs"
      by (simp_all add: n_def)
    have "off + Suc n \<le> length S"
      using IH(2) inb by (cases "0 < n") simp_all
    moreover have "take (Suc n) (drop off S) = x # take n xs"
      using inb x IH(3) by (simp add: Cons_nth_drop_Suc [symmetric])
    ultimately show ?thesis
      using True IH(1) by (simp add: n_def [symmetric])
  qed
qed

lemma match_back_sound:
  assumes "reads_from src S"
  shows "match_back src off rp \<le> off \<and> match_back src off rp \<le> length rp \<and>
         take (match_back src off rp) (drop (off - match_back src off rp) S) =
           rev (take (match_back src off rp) rp)"
proof (induction rp arbitrary: off)
  case Nil
  show ?case by simp
next
  case (Cons x xs)
  show ?case
  proof (cases "0 < off \<and> src (off - 1) = Some x")
    case False
    then have "match_back src off (x # xs) = 0"
      by simp
    then show ?thesis
      by simp
  next
    case True
    then have pos: "0 < off"
      by simp
    from True have "src (off - 1) = Some x"
      by simp
    from reads_fromD [OF assms this] have inb: "off - 1 < length S" and x: "S ! (off - 1) = x"
      by simp_all
    define m where "m = match_back src (off - 1) xs"
    from Cons.IH [of "off - 1"] have IH: "m \<le> off - 1" "m \<le> length xs"
      "take m (drop (off - 1 - m) S) = rev (take m xs)"
      by (simp_all add: m_def)
    define ys where "ys = drop (off - Suc m) S"
    have IH3: "take m ys = rev (take m xs)"
      using IH(3) by (simp add: ys_def)
    have ylen: "m < length ys"
      using inb IH(1) pos unfolding ys_def length_drop by linarith
    have "off - Suc m + m = off - 1"
      using IH(1) pos by linarith
    then have "ys ! m = x"
      using inb x by (simp add: ys_def)
    with ylen have "take (Suc m) ys = take m ys @ [x]"
      by (simp add: take_Suc_conv_app_nth)
    with IH3 have "take (Suc m) ys = rev (take (Suc m) (x # xs))"
      by simp
    moreover have "Suc m \<le> off"
      using pos IH(1) by linarith
    moreover have "match_back src off (x # xs) = Suc m"
      using True by (simp add: m_def)
    ultimately show ?thesis
      using IH(2) by (simp add: ys_def)
  qed
qed

lemma match_back_le: "match_back src off rp \<le> off \<and> match_back src off rp \<le> length rp"
proof (induction rp arbitrary: off)
  case Nil
  show ?case by simp
next
  case (Cons x xs)
  from Cons [of "off - 1"] show ?case
    by auto
qed

lemma best_match_mem: "best_match ms = Some m \<Longrightarrow> m \<in> set ms"
proof (induction ms arbitrary: m)
  case Nil
  then show ?case by simp
next
  case (Cons c cs)
  obtain off bk fw where c: "c = (off, bk, fw)"
    by (cases c)
  from Cons show ?case
    unfolding c by (auto split: option.splits if_splits)
qed

lemma find_match_sound:
  assumes "find_match tun ix target t pending = Some (off, bk, fw)"
  shows "fw = match_fwd (agg_byte (sources ix)) off (drop t target)"
    and "bk = match_back (agg_byte (sources ix)) off (rev pending)"
    and "0 < fw" and "off + fw \<le> 2 ^ 32" and "bk \<le> off"
proof -
  define ms where "ms = List.map_filter
    (try_candidate tun (agg_byte (sources ix)) (drop t target) pending)
    (candidates ix (block_hash tun (take (block_size tun) (drop t target))))"
  from assms have best: "best_match ms = Some (off, bk, fw)" and pos: "0 < fw"
    by (auto simp add: find_match_def Let_def ms_def split: if_splits option.splits)
  from best_match_mem [OF best] obtain c where
    "try_candidate tun (agg_byte (sources ix)) (drop t target) pending c = Some (off, bk, fw)"
    by (auto simp add: ms_def map_filter_def)
  then show "fw = match_fwd (agg_byte (sources ix)) off (drop t target)"
    and "bk = match_back (agg_byte (sources ix)) off (rev pending)"
    and "off + fw \<le> 2 ^ 32" and "bk \<le> off"
    by (auto simp add: try_candidate_def Let_def match_back_le split: if_splits)
  show "0 < fw" by (rule pos)
qed

text \<open>The copy that a match is written as gives the end of the pending run and the
  matched bytes of the target.\<close>

lemma match_span:
  assumes src: "reads_from (agg_byte (sources ix)) S"
    and m: "find_match tun ix target t pending = Some (off, bk, fw)"
  shows "off - bk + (bk + fw) \<le> length S"
    and "take (bk + fw) (drop (off - bk) S) =
           drop (length pending - bk) pending @ take fw (drop t target)"
    and "bk \<le> length pending" and "off - bk + (bk + fw) \<le> 2 ^ 32"
proof -
  note fm = find_match_sound [OF m]
  from match_fwd_sound [OF src, of off "drop t target"] fm(1,3)
  have fwd: "off + fw \<le> length S" "take fw (drop off S) = take fw (drop t target)"
    by simp_all
  from match_back_sound [OF src, of off "rev pending"] fm(2)
  have bwd: "bk \<le> off" "bk \<le> length pending"
    "take bk (drop (off - bk) S) = rev (take bk (rev pending))"
    by simp_all
  show "off - bk + (bk + fw) \<le> length S"
    using fwd(1) bwd(1) by simp
  show "bk \<le> length pending"
    by (rule bwd(2))
  show "off - bk + (bk + fw) \<le> 2 ^ 32"
    using fm(4) bwd(1) by simp
  have "take (bk + fw) (drop (off - bk) S) =
      take bk (drop (off - bk) S) @ take fw (drop off S)"
    using bwd(1) by (simp add: take_add)
  also have "\<dots> = rev (take bk (rev pending)) @ take fw (drop t target)"
    by (simp only: bwd(3) fwd(2))
  also have "rev (take bk (rev pending)) = drop (length pending - bk) pending"
    by (simp add: take_rev)
  finally show "take (bk + fw) (drop (off - bk) S) =
           drop (length pending - bk) pending @ take fw (drop t target)" .
qed

lemma run_delta_ops:
  "reads_from (agg_byte (sources ix)) S \<Longrightarrow>
   run_ops S (delta_ops tun ix target t pending) = Some (pending @ drop t target)"
proof (induction tun ix target t pending rule: delta_ops.induct)
  case (1 tun ix target t pending)
  show ?case
  proof (cases "length target \<le> t")
    case True
    then show ?thesis
      by (subst delta_ops.simps) (simp add: run_ops_inserts)
  next
    case more: False
    show ?thesis
    proof (cases "find_match tun ix target t pending")
      case None
      from "1.IH"(1) [OF more None "1.prems"]
      have "run_ops S (delta_ops tun ix target (t + 1) (pending @ [target ! t])) =
              Some ((pending @ [target ! t]) @ drop (t + 1) target)"
        by simp
      with more None show ?thesis
        by (subst delta_ops.simps) (simp add: Cons_nth_drop_Suc)
    next
      case (Some m)
      obtain off bk fw where m: "m = (off, bk, fw)"
        by (cases m)
      note fm = Some [unfolded m]
      note span = match_span [OF "1.prems" fm]
      have rest: "run_ops S (delta_ops tun ix target (t + fw) []) = Some ([] @ drop (t + fw) target)"
        using "1.IH"(2) [OF more fm refl refl "1.prems"] by simp
      have cp: "run_ops S (copies (off - bk) (bk + fw)) =
          Some (drop (length pending - bk) pending @ take fw (drop t target))"
        using run_ops_copies [OF span(1)] span(2) by simp
      have "drop (t + fw) target = drop fw (drop t target)"
        by (simp add: add.commute)
      then have join: "take fw (drop t target) @ drop (t + fw) target = drop t target"
        by (simp only: append_take_drop_id)
      have "run_ops S (inserts (take (length pending - bk) pending) @
              copies (off - bk) (bk + fw) @ delta_ops tun ix target (t + fw) []) =
            Some (take (length pending - bk) pending @
              (drop (length pending - bk) pending @ take fw (drop t target)) @
              ([] @ drop (t + fw) target))"
        by (intro run_ops_append run_ops_inserts cp rest)
      then show ?thesis
        using more fm join by (subst delta_ops.simps) simp
    qed
  qed
qed

lemma valid_delta_ops: "list_all valid_op (delta_ops tun ix target t pending)"
proof (induction tun ix target t pending rule: delta_ops.induct)
  case (1 tun ix target t pending)
  show ?case
  proof (cases "length target \<le> t")
    case True
    then show ?thesis
      by (subst delta_ops.simps) (simp add: valid_inserts)
  next
    case more: False
    show ?thesis
    proof (cases "find_match tun ix target t pending")
      case None
      with more "1.IH"(1) show ?thesis
        by (subst delta_ops.simps) simp
    next
      case (Some m)
      obtain off bk fw where m: "m = (off, bk, fw)"
        by (cases m)
      note fm = Some [unfolded m]
      from find_match_sound(4,5) [OF fm] have "off - bk + (bk + fw) \<le> 2 ^ 32"
        by simp
      then have "list_all valid_op (copies (off - bk) (bk + fw))"
        by (rule valid_copies)
      moreover have "list_all valid_op (delta_ops tun ix target (t + fw) [])"
        using "1.IH"(2) [OF more fm refl refl] .
      ultimately show ?thesis
        using more fm by (subst delta_ops.simps) (simp add: valid_inserts)
    qed
  qed
qed

subsection \<open>The stream of a target\<close>

lemma emit_all_append:
  "emit_all max_size out (xs @ ys) =
     (case emit_all max_size out xs of Inl e \<Rightarrow> Inl e | Inr out' \<Rightarrow> emit_all max_size out' ys)"
  by (induction xs arbitrary: out) (simp_all split: sum.splits)

lemma emit_all_eq:
  "emit_all max_size out ops =
     (if max_size \<noteq> 0 \<and> ops \<noteq> [] \<and> max_size < length (out @ concat (map encode_op ops))
      then Inl SizeExceeded else Inr (out @ concat (map encode_op ops)))"
proof (induction ops arbitrary: out)
  case Nil
  show ?case by simp
next
  case (Cons op ops)
  show ?case
  proof (cases "max_size \<noteq> 0 \<and> max_size < length (out @ encode_op op)")
    case True
    then show ?thesis
      by (simp add: emit_def)
  next
    case False
    then have "emit_all max_size out (op # ops) = emit_all max_size (out @ encode_op op) ops"
      by (auto simp add: emit_def)
    with False show ?thesis
      unfolding Cons.IH by (cases "ops = []") auto
  qed
qed

lemma delta_loop_emits:
  "delta_loop tun ix target max_size t pending out =
     emit_all max_size out (delta_ops tun ix target t pending)"
proof (induction tun ix target max_size t pending out rule: delta_loop.induct)
  case (1 tun ix target max_size t pending out)
  show ?case
  proof (cases "length target \<le> t")
    case True
    then show ?thesis
      by (subst delta_loop.simps, subst delta_ops.simps) simp
  next
    case more: False
    show ?thesis
    proof (cases "find_match tun ix target t pending")
      case None
      with more "1.IH"(1) show ?thesis
        by (subst delta_loop.simps, subst delta_ops.simps) simp
    next
      case (Some m)
      obtain off bk fw where m: "m = (off, bk, fw)"
        by (cases m)
      note fm = Some [unfolded m]
      define first where "first = inserts (take (length pending - bk) pending) @
        copies (off - bk) (bk + fw)"
      have IH: "delta_loop tun ix target max_size (t + fw) [] out' =
          emit_all max_size out' (delta_ops tun ix target (t + fw) [])"
        if "emit_all max_size out first = Inr out'" for out'
        using "1.IH"(2) [OF more fm refl refl] that by (simp add: first_def)
      have "delta_loop tun ix target max_size t pending out =
          (case emit_all max_size out first of
             Inl e \<Rightarrow> Inl e
           | Inr out' \<Rightarrow> delta_loop tun ix target max_size (t + fw) [] out')"
        using more fm by (subst delta_loop.simps) (simp add: first_def)
      also have "\<dots> = emit_all max_size out (first @ delta_ops tun ix target (t + fw) [])"
        unfolding emit_all_append using IH by (simp split: sum.splits)
      also have "first @ delta_ops tun ix target (t + fw) [] = delta_ops tun ix target t pending"
        using more fm by (subst (2) delta_ops.simps) (simp add: first_def)
      finally show ?thesis .
    qed
  qed
qed

lemma create_delta_eq:
  "create_delta tun True ix target max_size =
     (if max_size \<noteq> 0 \<and> max_size < length (delta_stream tun ix target)
      then Inl SizeExceeded else Inr (delta_stream tun ix target))"
  by (simp add: create_delta_def delta_loop_emits emit_all_eq delta_stream_def)

lemma length_delta_stream: "2 \<le> length (delta_stream tun ix target)"
proof -
  have "1 \<le> length (varint_encode n)" for n
    using varint_encode_nonempty [of n] by (cases "varint_encode n") simp_all
  from this [of "agg_size ix"] this [of "length target"] show ?thesis
    by (simp add: delta_stream_def)
qed

lemma decode_delta_stream:
  assumes "agg_size ix < 2 ^ 31" and "length target < 2 ^ 31"
  shows "decode_stream (delta_stream tun ix target) =
     Some (agg_size ix, length target, delta_ops tun ix target 0 [])"
proof -
  define body where "body = concat (map encode_op (delta_ops tun ix target 0 []))"
  define h1 where "h1 = varint_encode (agg_size ix)"
  define h2 where "h2 = varint_encode (length target)"
  have stream: "delta_stream tun ix target = h1 @ h2 @ body"
    by (simp add: delta_stream_def body_def h1_def h2_def)
  have first: "read_size (h1 @ h2 @ body) 0 = Some (agg_size ix, length h1)"
    using read_size_encode [OF assms(1), of "[]" "h2 @ body"] by (simp add: h1_def)
  have second: "read_size (h1 @ h2 @ body) (length h1) =
      Some (length target, length h1 + length h2)"
    using read_size_encode [OF assms(2), of h1 body] by (simp add: h2_def)
  have "parse_ops (drop (length h1 + length h2) (h1 @ h2 @ body)) =
      Some (delta_ops tun ix target 0 [])"
    by (simp add: body_def parse_ops_encode valid_delta_ops)
  with first second show ?thesis
    unfolding stream by (simp add: decode_stream_def)
qed

lemma apply_delta_stream:
  assumes "reads_from (agg_byte (sources ix)) S" and "agg_size ix = length S"
    and "length S < 2 ^ 31" and "length target < 2 ^ 31"
  shows "apply_delta (delta_stream tun ix target) S = Some target"
  using run_delta_ops [OF assms(1), of tun target 0 "[]"] assms(2,3,4)
  by (simp add: apply_delta_def decode_delta_stream)

section \<open>The claims about the index and the delta builder\<close>

lemma standalone_index:
  "create_delta_index tun True src None =
     Inr \<lparr>table = index_entries tun src, agg_size = length (buf src), sources = [src]\<rparr>"
  by (simp add: create_delta_index_def)

lemma candidates_entries:
  "map snd (filter (\<lambda>e. fst e = h) (index_entries tun src)) = block_matches tun src h"
  by (simp add: index_entries_def block_matches_def filter_map comp_def)

subsection \<open>The scenario of the specification\<close>

text \<open>
  On the scenario the model gives what section 8 expects: the header with the sizes 10
  and 14, an insert of \<open>xx\<close>, a copy of ten bytes from offset 0, and an insert of
  \<open>yy\<close>.
\<close>

lemma scenario_index_built:
  "create_delta_index scenario_tuning True \<lparr>buf = scenario_source, agg_offset = 0\<rparr> None =
     Inr scenario_index"
  by (simp add: create_delta_index_def index_entries_def block_offsets_def scenario_tuning_def
      scenario_source_def scenario_index_def upt_conv_Cons)

lemma scenario_ops:
  "delta_ops scenario_tuning scenario_index scenario_target 0 [] =
     [Insert [120, 120], Copy 0 10, Insert [121, 121]]"
  by (simp add: delta_ops.simps find_match_def candidates_def try_candidate_def
      List.map_filter_def inserts.simps copies.simps scenario_tuning_def scenario_source_def
      scenario_target_def scenario_index_def Let_def)

lemma le_digits_numeral:
  "le_digits (numeral k) v = v mod 256 # le_digits (pred_numeral k) (v div 256)"
  unfolding numeral_eq_Suc [of k] by (rule le_digits.simps)

lemma scenario_stream:
  "delta_stream scenario_tuning scenario_index scenario_target =
     [10, 14, 2, 120, 120, 144, 10, 2, 121, 121]"
proof -
  have "encode_copy 0 10 = [144, 10]"
    by (simp add: encode_copy_def le_digits_numeral)
  moreover have "varint_encode (agg_size scenario_index) = [10]"
    and "varint_encode (length scenario_target) = [14]"
    by (simp_all add: scenario_index_def scenario_target_def varint_encode.simps)
  ultimately show ?thesis
    by (simp add: delta_stream_def scenario_ops)
qed

text \<open>
  The round trip where the header reader is within its range: for a source and a target
  of fewer than \<open>2 ^ 31\<close> bytes, the index of \<open>S\<close> is built, the delta of \<open>T\<close>
  against it is built, and applying the stream to \<open>S\<close> gives \<open>T\<close> back. The stream
  decodes to the source length, the target length and a sequence of operations whose
  effects, concatenated in order, are \<open>T\<close>, and the target length of the header is the
  sum of the operations' lengths.
\<close>

lemma create_delta_applies_below_overflow:
  assumes "length S < 2 ^ 31" and "length T < 2 ^ 31"
  shows "\<exists>ix. create_delta_index tun True \<lparr>buf = S, agg_offset = 0\<rparr> None = Inr ix \<and>
     (\<exists>stream ops.
        create_delta tun True ix T 0 = Inr stream \<and>
        apply_delta stream S = Some T \<and>
        decode_stream stream = Some (length S, length T, ops) \<and>
        run_ops S ops = Some T \<and>
        sum_list (map op_length ops) = length T)"
proof -
  define ix where
    "ix = \<lparr>table = index_entries tun \<lparr>buf = S, agg_offset = 0\<rparr>, agg_size = length S,
            sources = [\<lparr>buf = S, agg_offset = 0\<rparr>]\<rparr>"
  have built: "create_delta_index tun True \<lparr>buf = S, agg_offset = 0\<rparr> None = Inr ix"
    by (simp add: standalone_index ix_def)
  have src: "reads_from (agg_byte (sources ix)) S"
    by (simp add: ix_def reads_from_single)
  have size: "agg_size ix = length S"
    by (simp add: ix_def)
  define stream where "stream = delta_stream tun ix T"
  define ops where "ops = delta_ops tun ix T 0 []"
  have app: "apply_delta stream S = Some T"
    unfolding stream_def using src size assms by (rule apply_delta_stream)
  have dec: "decode_stream stream = Some (length S, length T, ops)"
    using assms by (simp add: stream_def ops_def decode_delta_stream size)
  have run: "run_ops S ops = Some T"
    unfolding ops_def using run_delta_ops [OF src, of tun T 0 "[]"] by simp
  from run_ops_length [OF run] have len: "sum_list (map op_length ops) = length T"
    by simp
  have unbounded: "create_delta tun True ix T 0 = Inr stream"
    by (simp add: create_delta_eq stream_def)
  with built app dec run len show ?thesis
    by blast
qed





text \<open>
  C6 (size cutoff). For every index and target, the builder without a cutoff
  (\<open>max_size = 0\<close>) returns a stream, of \<open>N\<close> bytes say. With a cutoff it returns
  that same stream when \<open>N\<close> is at most the cutoff, and otherwise it reports that the
  size is exceeded and returns no buffer. So the cutoff \<open>N - 1\<close> fails and the cutoff
  \<open>N\<close> succeeds with exactly \<open>N\<close> bytes.
\<close>

theorem create_delta_size_cutoff:
  "\<exists>stream.
     create_delta tun True ix target 0 = Inr stream \<and>
     (\<forall>max_size.
        create_delta tun True ix target max_size =
          (if max_size \<noteq> 0 \<and> max_size < length stream then Inl SizeExceeded
           else Inr stream)) \<and>
     create_delta tun True ix target (length stream - 1) = Inl SizeExceeded \<and>
     create_delta tun True ix target (length stream) = Inr stream"
proof -
  have "2 \<le> length (delta_stream tun ix target)"
    by (rule length_delta_stream)
  then have "create_delta tun True ix target (length (delta_stream tun ix target) - 1) =
      Inl SizeExceeded"
    by (simp add: create_delta_eq)
  then show ?thesis
    by (intro exI [of _ "delta_stream tun ix target"]) (simp add: create_delta_eq)
qed

theorem create_delta_size_cutoff_witness:
  "create_delta scenario_tuning True scenario_index scenario_target 0 =
     Inr [10, 14, 2, 120, 120, 144, 10, 2, 121, 121] \<and>
   create_delta scenario_tuning True scenario_index scenario_target 9 = Inl SizeExceeded \<and>
   create_delta scenario_tuning True scenario_index scenario_target 10 =
     Inr [10, 14, 2, 120, 120, 144, 10, 2, 121, 121]"
proof -
  have stream: "create_delta scenario_tuning True scenario_index scenario_target 0 =
      Inr [10, 14, 2, 120, 120, 144, 10, 2, 121, 121]"
    by (simp add: create_delta_eq scenario_stream)
  from create_delta_size_cutoff [of scenario_tuning scenario_index scenario_target]
  obtain s where s: "create_delta scenario_tuning True scenario_index scenario_target 0 = Inr s"
    and below: "create_delta scenario_tuning True scenario_index scenario_target (length s - 1) =
      Inl SizeExceeded"
    and at: "create_delta scenario_tuning True scenario_index scenario_target (length s) = Inr s"
    by blast
  from s stream have eq: "s = [10, 14, 2, 120, 120, 144, 10, 2, 121, 121]"
    by simp
  then have len: "length s = 10"
    by simp
  from below have "create_delta scenario_tuning True scenario_index scenario_target 9 =
      Inl SizeExceeded"
    by (simp add: len)
  moreover from at have "create_delta scenario_tuning True scenario_index scenario_target 10 =
      Inr s"
    unfolding len .
  ultimately show ?thesis
    using stream eq by simp
qed

text \<open>
  C8 (chained index construction). The index of \<open>S2\<close> built on the index of \<open>S1\<close>
  reports, for every hash, first the offsets that the index of \<open>S1\<close> alone reports,
  unchanged, and then the offsets of the blocks of \<open>S2\<close>, each the place of the block
  in \<open>S2\<close> plus the \<open>agg_offset\<close> of \<open>S2\<close>. Its aggregate source is \<open>S1\<close> followed
  by \<open>S2\<close>.
\<close>

theorem create_delta_index_chained:
  "\<exists>ix1 ix12.
     create_delta_index tun True s1 None = Inr ix1 \<and>
     create_delta_index tun True s2 (Some ix1) = Inr ix12 \<and>
     (\<forall>h. candidates ix1 h = block_matches tun s1 h) \<and>
     (\<forall>h. candidates ix12 h = candidates ix1 h @ block_matches tun s2 h) \<and>
     agg_size ix12 = length (buf s1) + length (buf s2) \<and>
     sources ix12 = [s1, s2]"
proof -
  define ix1 where
    "ix1 = \<lparr>table = index_entries tun s1, agg_size = length (buf s1), sources = [s1]\<rparr>"
  define ix12 where
    "ix12 = \<lparr>table = index_entries tun s1 @ index_entries tun s2,
              agg_size = length (buf s1) + length (buf s2), sources = [s1, s2]\<rparr>"
  have first: "create_delta_index tun True s1 None = Inr ix1"
    by (simp add: standalone_index ix1_def)
  have chained: "create_delta_index tun True s2 (Some ix1) = Inr ix12"
    by (simp add: create_delta_index_def ix1_def ix12_def)
  have alone: "candidates ix1 h = block_matches tun s1 h" for h
    by (simp add: candidates_def ix1_def candidates_entries)
  have both: "candidates ix12 h = candidates ix1 h @ block_matches tun s2 h" for h
    by (simp add: candidates_def ix1_def ix12_def candidates_entries)
  have "agg_size ix12 = length (buf s1) + length (buf s2)" and "sources ix12 = [s1, s2]"
    by (simp_all add: ix12_def)
  with first chained alone both show ?thesis
    by blast
qed


theorem create_delta_index_chained_witness:
  "create_delta_index scenario_tuning True \<lparr>buf = scenario_source, agg_offset = 0\<rparr> None =
     Inr scenario_index \<and>
   (case create_delta_index scenario_tuning True \<lparr>buf = [97, 98, 99, 100], agg_offset = 10\<rparr>
           (Some scenario_index) of
      Inl e \<Rightarrow> [] | Inr ix \<Rightarrow> candidates ix 394) = [0, 10]"
proof -
  from create_delta_index_chained [of scenario_tuning
      "\<lparr>buf = scenario_source, agg_offset = 0\<rparr>" "\<lparr>buf = [97, 98, 99, 100], agg_offset = 10\<rparr>"]
  obtain ix1 ix12 where
    "create_delta_index scenario_tuning True \<lparr>buf = scenario_source, agg_offset = 0\<rparr> None =
       Inr ix1"
    and ix12: "create_delta_index scenario_tuning True \<lparr>buf = [97, 98, 99, 100], agg_offset = 10\<rparr>
       (Some ix1) = Inr ix12"
    and "candidates ix12 394 = candidates ix1 394 @
       block_matches scenario_tuning \<lparr>buf = [97, 98, 99, 100], agg_offset = 10\<rparr> 394"
    by blast
  with scenario_index_built have ix1: "ix1 = scenario_index"
    and "candidates ix12 394 = candidates scenario_index 394 @
       block_matches scenario_tuning \<lparr>buf = [97, 98, 99, 100], agg_offset = 10\<rparr> 394"
    by simp_all
  then have "candidates ix12 394 = [0, 10]"
    by (simp add: candidates_def scenario_index_def block_matches_def block_offsets_def
        scenario_tuning_def upt_conv_Cons)
  with ix12 ix1 scenario_index_built show ?thesis
    by simp
qed


end
